theory Spec2Isabelle
  imports Main "HOL-Library.Char_ord" "HOL-Library.List_Lexorder" "HOL-Library.Sublist"
begin

section \<open>Plain JavaScript objects as insertion-ordered dictionaries\<close>

text \<open>
  The scripts keep their data in plain objects keyed by feature identifier or package
  name. Such an object enumerates its string keys in insertion order, an assignment to
  an existing key keeps the key's position, and an assignment to a new key appends it.
  An object is modelled as an association list of its own properties in enumeration
  order. Keys are taken not to be canonical array indices, which an engine enumerates
  first, in numeric order.
\<close>

type_synonym 'v jsobject = "(string \<times> 'v) list"

definition is_object :: "'v jsobject \<Rightarrow> bool" where
  "is_object ps = distinct (map fst ps)"

definition obj_get :: "'v jsobject \<Rightarrow> string \<Rightarrow> 'v option" where
  "obj_get ps k = map_of ps k"

fun obj_set :: "string \<Rightarrow> 'v \<Rightarrow> 'v jsobject \<Rightarrow> 'v jsobject" where
  "obj_set k v [] = [(k, v)]"
| "obj_set k v ((k', v') # ps) =
     (if k = k' then (k', v) # ps else (k', v') # obj_set k v ps)"

definition obj_delete :: "string \<Rightarrow> 'v jsobject \<Rightarrow> 'v jsobject" where
  "obj_delete k ps = filter (\<lambda>p. fst p \<noteq> k) ps"

definition obj_keys :: "'v jsobject \<Rightarrow> string list" where
  "obj_keys ps = map fst ps"

text \<open>
  A read \<open>obj[k]\<close> that finds no own property \<open>k\<close> goes on to \<open>Object.prototype\<close>,
  the prototype of every object that an object literal or \<open>JSON.parse\<close> creates. The
  names below are the properties of \<open>Object.prototype\<close>; their values are functions,
  and the prototype object itself for \<open>__proto__\<close>: all truthy, and none of them has a
  property \<open>fallbacks\<close> or \<open>lastModified\<close>. Where a script reads a key that comes from
  a hand-written or derived file (an override key, a package name), the read is modelled
  by \<open>js_get\<close>; the keys of the feature catalogue are read with \<open>obj_get\<close>.
\<close>

definition inherited_names :: "string list" where
  "inherited_names =
     [''constructor'', ''__defineGetter__'', ''__defineSetter__'', ''hasOwnProperty'',
      ''__lookupGetter__'', ''__lookupSetter__'', ''isPrototypeOf'', ''propertyIsEnumerable'',
      ''toString'', ''valueOf'', ''__proto__'', ''toLocaleString'']"

datatype 'v lookup = Own 'v | Inherited | Undefined

definition js_get :: "'v jsobject \<Rightarrow> string \<Rightarrow> 'v lookup" where
  "js_get ps k =
     (case obj_get ps k of
        Some v \<Rightarrow> Own v
      | None \<Rightarrow> if k \<in> set inherited_names then Inherited else Undefined)"

text \<open>
  The ways in which a run ends with an uncaught exception: the request for the remote
  mapping throws, answers with a status that is not ok, or has an unreadable body; the
  clone fails; a \<open>TypeError\<close> is thrown.
\<close>

datatype error = FetchError | StatusError nat | BodyError | CloneError | TypeError

section \<open>String primitives\<close>

text \<open>
  Slugs, urls and identifiers are ASCII strings. \<open>toLowerCase\<close> maps the letters
  \<open>A\<close> to \<open>Z\<close> to \<open>a\<close> to \<open>z\<close> and leaves every other character alone.
\<close>

definition lower_char :: "char \<Rightarrow> char" where
  "lower_char c =
     (case map_of (zip ''ABCDEFGHIJKLMNOPQRSTUVWXYZ'' ''abcdefghijklmnopqrstuvwxyz'') c of
        Some d \<Rightarrow> d
      | None \<Rightarrow> c)"

definition toLowerCase :: "string \<Rightarrow> string" where
  "toLowerCase s = map lower_char s"

text \<open>
  \<open>s.replace(/pat/g, rep)\<close> for a pattern that is a literal, non-empty string: scan from
  the left, replace an occurrence and continue behind it, otherwise copy one character.
\<close>

function replace_all :: "string \<Rightarrow> string \<Rightarrow> string \<Rightarrow> string" where
  "replace_all pat rep s =
     (if pat \<noteq> [] \<and> prefix pat s then rep @ replace_all pat rep (drop (length pat) s)
      else (case s of [] \<Rightarrow> [] | c # t \<Rightarrow> c # replace_all pat rep t))"
  by pat_completeness auto
termination
  by (relation "measure (\<lambda>(pat, rep, s). length s)") (auto simp: prefix_def)

declare replace_all.simps [simp del]

section \<open>slugToPath\<close>

definition slugToPath :: "string \<Rightarrow> string" where
  "slugToPath slug =
     replace_all ''*'' ''_star_''
       (replace_all '':'' ''_colon_''
         (replace_all ''::'' ''_doublecolon_'' (toLowerCase slug)))"

text \<open>
  The three replacements fused into one left-to-right pass; \<open>slugToPath_escape\<close> below
  shows that the chain of replacements computes exactly this.
\<close>

fun escape :: "string \<Rightarrow> string" where
  "escape [] = []"
| "escape (c # s) =
     (if c = CHR '':'' then
        (case s of
           [] \<Rightarrow> ''_colon_''
         | d # t \<Rightarrow> if d = CHR '':'' then ''_doublecolon_'' @ escape t
                    else ''_colon_'' @ escape s)
      else if c = CHR ''*'' then ''_star_'' @ escape s
      else c # escape s)"

text \<open>A decoder for escaped paths, used to show that escaping loses no information.\<close>

function unescape :: "string \<Rightarrow> string" where
  "unescape [] = []"
| "unescape (c # s) =
     (if c = CHR ''_'' \<and> prefix ''doublecolon_'' s then ''::'' @ unescape (drop 12 s)
      else if c = CHR ''_'' \<and> prefix ''colon_'' s then '':'' @ unescape (drop 6 s)
      else if c = CHR ''_'' \<and> prefix ''star_'' s then ''*'' @ unescape (drop 5 s)
      else c # unescape s)"
  by pat_completeness auto
termination
  by (relation "measure length") auto

section \<open>Data model of generate-polyfill-mappings.js\<close>

text \<open>A raw link \<open>{url, text}\<close> as \<open>findPolyfills\<close> returns it.\<close>

record link =
  link_url :: string
  link_text :: string

text \<open>A fallback record; the optional properties are \<open>None\<close> when they are not set.\<close>

record fallback =
  fallback_type :: string
  url :: string
  npm :: "string option"
  github :: "string option"
  description :: "string option"

record entry =
  fallbacks :: "fallback list"

record doc =
  slug :: string

text \<open>
  An override entry as the merge loop reads it: \<open>override.exclude\<close> and
  \<open>override.replace\<close> are tested for truthiness, \<open>override.fallbacks\<close> is compared
  with \<open>undefined\<close>.
\<close>

record override =
  exclude :: bool
  replace :: bool
  override_fallbacks :: "fallback list option"

section \<open>extractNpmPackage and extractGithubRepo\<close>

text \<open>
  \<open>str.match(re)\<close> for a regular expression without flags tries the start positions
  from left to right and returns the first match.
\<close>

fun regex_search :: "(string \<Rightarrow> 'a option) \<Rightarrow> string \<Rightarrow> 'a option" where
  "regex_search match_at [] = match_at []"
| "regex_search match_at (c # s) =
     (case match_at (c # s) of
        Some r \<Rightarrow> Some r
      | None \<Rightarrow> regex_search match_at s)"

text \<open>The character class \<open>[^\/\?#]\<close>.\<close>

definition name_char :: "char \<Rightarrow> bool" where
  "name_char c \<longleftrightarrow> c \<noteq> CHR ''/'' \<and> c \<noteq> CHR ''?'' \<and> c \<noteq> CHR ''#''"

text \<open>
  \<open>/npmjs\.com\/package\/(@?[^\/\?#]+(?:\/[^\/\?#]+)?)/\<close> anchored at the start of \<open>s\<close>.
  The class \<open>[^\/\?#]\<close> contains \<open>@\<close>, so with or without the optional \<open>@\<close>
  the first segment is the longest run of class characters and must not be empty; the
  optional group is greedy and takes a slash and the longest non-empty run behind it.
  The result is capture group 1.
\<close>

definition npm_match_at :: "string \<Rightarrow> string option" where
  "npm_match_at s =
     (if prefix ''npmjs.com/package/'' s then
        (let rest = drop (length ''npmjs.com/package/'') s;
             seg1 = takeWhile name_char rest;
             after = dropWhile name_char rest
         in if seg1 = [] then None
            else (case after of
                    [] \<Rightarrow> Some seg1
                  | c # t \<Rightarrow>
                      if c = CHR ''/'' \<and> takeWhile name_char t \<noteq> []
                      then Some (seg1 @ ''/'' @ takeWhile name_char t)
                      else Some seg1))
      else None)"

definition extractNpmPackage :: "string \<Rightarrow> string option" where
  "extractNpmPackage u = regex_search npm_match_at u"

text \<open>
  \<open>/github\.com\/([^\/]+\/[^\/\?#]+)/\<close> anchored at the start of \<open>s\<close>: the owner is
  the longest run without a slash, a slash follows, and the repository is the longest
  non-empty run of \<open>[^\/\?#]\<close>.
\<close>

definition github_match_at :: "string \<Rightarrow> string option" where
  "github_match_at s =
     (if prefix ''github.com/'' s then
        (let rest = drop (length ''github.com/'') s;
             owner = takeWhile (\<lambda>c. c \<noteq> CHR ''/'') rest;
             after = dropWhile (\<lambda>c. c \<noteq> CHR ''/'') rest
         in if owner = [] then None
            else (case after of
                    [] \<Rightarrow> None
                  | c # t \<Rightarrow>
                      if takeWhile name_char t = [] then None
                      else Some (owner @ ''/'' @ takeWhile name_char t)))
      else None)"

text \<open>\<open>.replace(/\.git$/, '')\<close>\<close>

definition strip_git :: "string \<Rightarrow> string" where
  "strip_git s = (if suffix ''.git'' s then take (length s - 4) s else s)"

definition extractGithubRepo :: "string \<Rightarrow> string option" where
  "extractGithubRepo u = map_option strip_git (regex_search github_match_at u)"

section \<open>generateMappings\<close>

text \<open>
  Reading the MDN clone is input: \<open>pages p\<close> stands for the polyfill links that the scan
  of the See-also section finds in \<open>files/en-us/p/index.md\<close>, and is empty when that
  file cannot be read or has no such section.
\<close>

definition findPolyfills :: "(string \<Rightarrow> link list) \<Rightarrow> string \<Rightarrow> link list" where
  "findPolyfills pages sl = pages (slugToPath sl)"

text \<open>
  \<open>Array.from(new Map(links.map(link => [link.url, link])).values())\<close>: a \<open>Map\<close> keeps
  the position of the first insertion of a key and the value of the last one.
\<close>

definition uniqueLinks :: "link list \<Rightarrow> link list" where
  "uniqueLinks allPolyfillLinks =
     map snd (foldl (\<lambda>m l. obj_set (link_url l) l m) [] allPolyfillLinks)"

text \<open>A property is set only when the extracted value is truthy.\<close>

definition truthy :: "string option \<Rightarrow> string option" where
  "truthy v = (case v of Some s \<Rightarrow> if s = [] then None else Some s | None \<Rightarrow> None)"

definition toFallback :: "link \<Rightarrow> fallback" where
  "toFallback l =
     \<lparr>fallback_type = ''polyfill'',
      url = link_url l,
      npm = truthy (extractNpmPackage (link_url l)),
      github = truthy (extractGithubRepo (link_url l)),
      description = truthy (Some (link_text l))\<rparr>"

text \<open>
  The slugs of a feature: the remote mapping first, the lookup in the compatibility data
  (\<open>getMDNSlug\<close>, a reading of the imported data sets, \<open>None\<close> for \<open>null\<close>) otherwise.
\<close>

definition feature_slugs ::
  "doc list jsobject \<Rightarrow> (string \<Rightarrow> string option) \<Rightarrow> string \<Rightarrow> string list" where
  "feature_slugs mdnDocsMapping getMDNSlug featureId =
     (case obj_get mdnDocsMapping featureId of
        Some docs \<Rightarrow> map slug docs
      | None \<Rightarrow>
          (case truthy (getMDNSlug featureId) of
             Some sl \<Rightarrow> [sl]
           | None \<Rightarrow> []))"

text \<open>One iteration of the loop over the feature catalogue.\<close>

definition generate_step ::
  "doc list jsobject \<Rightarrow> (string \<Rightarrow> string option) \<Rightarrow> (string \<Rightarrow> link list) \<Rightarrow>
     entry jsobject \<Rightarrow> string \<Rightarrow> entry jsobject" where
  "generate_step mdnDocsMapping getMDNSlug pages mappings featureId =
     (let slugs = feature_slugs mdnDocsMapping getMDNSlug featureId in
      if slugs = [] then mappings
      else
        (let allPolyfillLinks = concat (map (findPolyfills pages) slugs) in
         if allPolyfillLinks = [] then mappings
         else obj_set featureId
                \<lparr>fallbacks = map toFallback (uniqueLinks allPolyfillLinks)\<rparr> mappings))"

text \<open>
  \<open>Object.keys(mappings).sort().reduce(...)\<close>: a new object that receives the keys in
  sorted order.
\<close>

definition sort_by_key :: "'v jsobject \<Rightarrow> 'v jsobject" where
  "sort_by_key mappings =
     foldl (\<lambda>sorted key.
              (case obj_get mappings key of
                 Some v \<Rightarrow> obj_set key v sorted
               | None \<Rightarrow> sorted))
           [] (sort (obj_keys mappings))"

definition generateMappings ::
  "doc list jsobject \<Rightarrow> (string \<Rightarrow> string option) \<Rightarrow> (string \<Rightarrow> link list) \<Rightarrow>
     string list \<Rightarrow> entry jsobject" where
  "generateMappings mdnDocsMapping getMDNSlug pages features =
     sort_by_key (foldl (generate_step mdnDocsMapping getMDNSlug pages) [] features)"

section \<open>The merge loop of main\<close>

text \<open>
  One iteration of the loop. In augment mode the test \<open>if (mappings[featureId])\<close> is a
  read through the prototype: when \<open>featureId\<close> is no own key but a name of
  \<open>Object.prototype\<close>, the test succeeds, \<open>mappings[featureId].fallbacks\<close> is
  \<open>undefined\<close>, and spreading it throws a \<open>TypeError\<close>, which ends the run.
\<close>

fun merge_step :: "entry jsobject \<Rightarrow> string \<times> override \<Rightarrow> error + entry jsobject" where
  "merge_step mappings (featureId, ov) =
     (if exclude ov then Inr (obj_delete featureId mappings)
      else (case override_fallbacks ov of
        None \<Rightarrow> Inr mappings
      | Some fs \<Rightarrow>
          if replace ov then Inr (obj_set featureId \<lparr>fallbacks = fs\<rparr> mappings)
          else (case js_get mappings featureId of
            Own e \<Rightarrow> Inr (obj_set featureId (e\<lparr>fallbacks := fallbacks e @ fs\<rparr>) mappings)
          | Inherited \<Rightarrow> Inl TypeError
          | Undefined \<Rightarrow> Inr (obj_set featureId \<lparr>fallbacks = fs\<rparr> mappings))))"

text \<open>The loop over \<open>Object.entries(overrides)\<close>; an exception leaves it at once.\<close>

fun merge_overrides :: "entry jsobject \<Rightarrow> override jsobject \<Rightarrow> error + entry jsobject" where
  "merge_overrides mappings [] = Inr mappings"
| "merge_overrides mappings (p # overrides) =
     (case merge_step mappings p of
        Inl e \<Rightarrow> Inl e
      | Inr mappings' \<Rightarrow> merge_overrides mappings' overrides)"

section \<open>main of generate-polyfill-mappings.js\<close>

text \<open>
  What the run finds outside: the answer to the request for the remote slug mapping, the
  state of the local clone, the imported data sets and the override file.
\<close>

datatype mdn_response = FetchThrows | Response nat "doc list jsobject option"

datatype mdn_content = Cached | CloneSucceeds | CloneFails

datatype override_file = NoFile | Unparseable | Document "override jsobject"

record world =
  mdn_response :: mdn_response
  mdn_content :: mdn_content
  features :: "string list"
  getMDNSlug :: "string \<Rightarrow> string option"
  pages :: "string \<Rightarrow> link list"
  override_file :: override_file

definition fetchMDNDocsMapping :: "mdn_response \<Rightarrow> error + doc list jsobject" where
  "fetchMDNDocsMapping r =
     (case r of
        FetchThrows \<Rightarrow> Inl FetchError
      | Response status body \<Rightarrow>
          if \<not> (200 \<le> status \<and> status \<le> 299) then Inl (StatusError status)
          else (case body of None \<Rightarrow> Inl BodyError | Some mapping \<Rightarrow> Inr mapping))"

definition ensureMDNContent :: "mdn_content \<Rightarrow> error + unit" where
  "ensureMDNContent c = (case c of CloneFails \<Rightarrow> Inl CloneError | _ \<Rightarrow> Inr ())"

text \<open>
  The \<open>try\<close> block that loads the overrides: \<open>readFile\<close> throws when there is no file,
  \<open>JSON.parse\<close> throws when the text is malformed, and the \<open>catch\<close> clause leaves
  \<open>overrides\<close> at its initial value \<open>{}\<close> in both cases. Keys that start with an
  underscore are filtered out.
\<close>

definition loadOverrides :: "override_file \<Rightarrow> override jsobject" where
  "loadOverrides f =
     (case f of
        Document parsed \<Rightarrow> filter (\<lambda>p. \<not> prefix ''_'' (fst p)) parsed
      | _ \<Rightarrow> [])"

text \<open>
  The result \<open>Inr mappings\<close> is the object handed to \<open>JSON.stringify\<close>; with \<open>Inl\<close>
  nothing is written.
\<close>

definition main :: "world \<Rightarrow> error + entry jsobject" where
  "main w =
     (case fetchMDNDocsMapping (mdn_response w) of
        Inl e \<Rightarrow> Inl e
      | Inr mdnDocsMapping \<Rightarrow>
          (case ensureMDNContent (mdn_content w) of
             Inl e \<Rightarrow> Inl e
           | Inr _ \<Rightarrow>
               merge_overrides
                 (generateMappings mdnDocsMapping (getMDNSlug w) (pages w) (features w))
                 (loadOverrides (override_file w))))"

section \<open>generate-npm-stats.js\<close>

text \<open>
  A record of the stats file: \<open>downloads\<close> is a number or \<open>null\<close>, \<open>lastModified\<close>
  an ISO string, absent in the legacy format.
\<close>

record stat =
  downloads :: "int option"
  lastModified :: "string option"

definition MAX_RETRIES :: nat where
  "MAX_RETRIES = 2"

definition ONE_WEEK_MS :: int where
  "ONE_WEEK_MS = 7 * 24 * 60 * 60 * 1000"

text \<open>\<open>FORCE_REFRESH\<close> is read from the command line: \<open>--force\<close> or its short form \<open>-f\<close>.\<close>

definition FORCE_REFRESH :: "string list \<Rightarrow> bool" where
  "FORCE_REFRESH argv \<longleftrightarrow> ''--force'' \<in> set argv \<or> ''-f'' \<in> set argv"

text \<open>
  What a run of the stats script observes: the command line; \<open>parseDate\<close>, the time
  value in milliseconds of \<open>new Date(s)\<close>, \<open>None\<close> for an invalid date; \<open>clock p\<close>, the
  time value of \<open>new Date()\<close> when \<open>needsRefresh\<close> looks at package \<open>p\<close>;
  \<open>respond p n\<close>, the answer of the registry to the request for \<open>p\<close> that is made with
  retry count \<open>n\<close>; \<open>stamp p\<close>, the value of \<open>new Date().toISOString()\<close> when the record
  of \<open>p\<close> is written. The package list of a run has no duplicates
  (\<open>extractNpmPackages_distinct\<close>), so every package is looked at once.
\<close>

datatype npm_response = Throws | Status nat "int option"

record npm_world =
  argv :: "string list"
  parseDate :: "string \<Rightarrow> int option"
  clock :: "string \<Rightarrow> int"
  respond :: "string \<Rightarrow> nat \<Rightarrow> npm_response"
  stamp :: "string \<Rightarrow> string"

text \<open>
  \<open>needsRefresh\<close>. A missing entry and a missing or empty \<open>lastModified\<close> are falsy;
  an inherited value is truthy and has no \<open>lastModified\<close>; with an invalid date the
  difference is \<open>NaN\<close> and the comparison is false.
\<close>

definition needsRefresh ::
  "string list \<Rightarrow> (string \<Rightarrow> int option) \<Rightarrow> int \<Rightarrow> string \<Rightarrow> stat jsobject \<Rightarrow> bool" where
  "needsRefresh args parse now packageName existingStats =
     (if FORCE_REFRESH args then True
      else (case js_get existingStats packageName of
        Undefined \<Rightarrow> True
      | Inherited \<Rightarrow> True
      | Own st \<Rightarrow>
          (case truthy (lastModified st) of
             None \<Rightarrow> True
           | Some ts \<Rightarrow>
               (case parse ts of
                  None \<Rightarrow> False
                | Some t \<Rightarrow> now - t > ONE_WEEK_MS))))"

text \<open>
  \<open>extractNpmPackages\<close>: the truthy \<open>npm\<close> properties of all fallbacks, collected in a
  \<open>Set\<close> and returned sorted.
\<close>

definition set_add :: "string list \<Rightarrow> string \<Rightarrow> string list" where
  "set_add packages p = (if p \<in> set packages then packages else packages @ [p])"

definition extractNpmPackages :: "entry jsobject \<Rightarrow> string list" where
  "extractNpmPackages polyfillMappings =
     sort (foldl set_add []
            (concat (map (\<lambda>feature.
               concat (map (\<lambda>f. (case truthy (npm f) of Some p \<Rightarrow> [p] | None \<Rightarrow> []))
                           (fallbacks (snd feature))))
             polyfillMappings)))"

text \<open>
  \<open>fetchPackageStats\<close>. \<open>Throws\<close> stands for a request that throws; \<open>Status st d\<close> for
  a response with status \<open>st\<close> whose body has the \<open>downloads\<close> value \<open>d\<close> (\<open>None\<close> when it
  is \<open>null\<close> or when reading the body throws, which the \<open>catch\<close> clause turns into
  \<open>null\<close>). The result \<open>None\<close> is the return value \<open>null\<close>.
\<close>

function fetchPackageStats :: "(nat \<Rightarrow> npm_response) \<Rightarrow> nat \<Rightarrow> int option" where
  "fetchPackageStats answer retryCount =
     (case answer retryCount of
        Throws \<Rightarrow> None
      | Status st d \<Rightarrow>
          if st = 404 then None
          else if st = 429 \<and> retryCount < MAX_RETRIES
            then fetchPackageStats answer (retryCount + 1)
          else if \<not> (200 \<le> st \<and> st \<le> 299) then None
          else d)"
  by pat_completeness auto
termination
  by (relation "measure (\<lambda>(answer, retryCount). MAX_RETRIES - retryCount)") auto

declare fetchPackageStats.simps [simp del]

text \<open>\<open>fetchAllStats\<close>: the filter and one iteration of the loop over the stale packages.\<close>

definition packagesToRefresh :: "npm_world \<Rightarrow> string list \<Rightarrow> stat jsobject \<Rightarrow> string list" where
  "packagesToRefresh w packages existingStats =
     filter (\<lambda>pkg. needsRefresh (argv w) (parseDate w) (clock w pkg) pkg existingStats) packages"

definition refresh_step :: "npm_world \<Rightarrow> stat jsobject \<Rightarrow> string \<Rightarrow> stat jsobject" where
  "refresh_step w stats packageName =
     (case fetchPackageStats (respond w packageName) 0 of
        Some d \<Rightarrow>
          obj_set packageName
            \<lparr>downloads = Some d, lastModified = Some (stamp w packageName)\<rparr> stats
      | None \<Rightarrow>
          (case js_get stats packageName of
             Undefined \<Rightarrow>
               obj_set packageName
                 \<lparr>downloads = None, lastModified = Some (stamp w packageName)\<rparr> stats
           | Inherited \<Rightarrow> stats
           | Own st \<Rightarrow> stats))"

definition fetchAllStats :: "npm_world \<Rightarrow> string list \<Rightarrow> stat jsobject \<Rightarrow> stat jsobject" where
  "fetchAllStats w packages existingStats =
     foldl (refresh_step w) existingStats (packagesToRefresh w packages existingStats)"

section \<open>Example data\<close>

text \<open>A fallback that carries only a url.\<close>

abbreviation example_fallback :: "string \<Rightarrow> fallback" where
  "example_fallback u \<equiv>
     \<lparr>fallback_type = ''polyfill'', url = u, npm = None, github = None, description = None\<rparr>"

text \<open>
  A small run of the mappings script: the catalogue has two features, the remote mapping
  knows two pages for one of them, and both pages link the same polyfill.
\<close>

definition example_getMDNSlug :: "string \<Rightarrow> string option" where
  "example_getMDNSlug featureId = None"

definition example_pages :: "string \<Rightarrow> link list" where
  "example_pages p =
     (if p = ''web/api/intersection_observer_api'' then
        [\<lparr>link_url = ''https://www.npmjs.com/package/intersection-observer'',
          link_text = ''A polyfill''\<rparr>]
      else if p = ''web/api/intersectionobserver'' then
        [\<lparr>link_url = ''https://www.npmjs.com/package/intersection-observer'',
          link_text = ''IntersectionObserver polyfill''\<rparr>]
      else [])"

definition example_world :: "override_file \<Rightarrow> world" where
  "example_world f =
     \<lparr>mdn_response = Response 200 (Some
        [(''intersection-observer'',
          [\<lparr>slug = ''Web/API/Intersection_Observer_API''\<rparr>,
           \<lparr>slug = ''Web/API/IntersectionObserver''\<rparr>])]),
      mdn_content = Cached,
      features = [''array-group'', ''intersection-observer''],
      getMDNSlug = example_getMDNSlug,
      pages = example_pages,
      override_file = f\<rparr>"

definition example_entry :: entry where
  "example_entry =
     \<lparr>fallbacks =
        [\<lparr>fallback_type = ''polyfill'',
          url = ''https://www.npmjs.com/package/intersection-observer'',
          npm = Some ''intersection-observer'',
          github = None,
          description = Some ''IntersectionObserver polyfill''\<rparr>]\<rparr>"

definition example_mappings :: "entry jsobject" where
  "example_mappings = [(''intersection-observer'', example_entry)]"

text \<open>
  A run of the stats script: no flag, dates as plain numbers of milliseconds, a registry
  that knows the package \<open>a\<close>, answers the first request for it with a rate limit, and
  knows no other package.
\<close>

definition example_parseDate :: "string \<Rightarrow> int option" where
  "example_parseDate s =
     (if s = ''t0'' then Some 0 else if s = ''t1'' then Some 650000000 else None)"

definition example_clock :: "string \<Rightarrow> int" where
  "example_clock p = 700000000"

definition example_respond :: "string \<Rightarrow> nat \<Rightarrow> npm_response" where
  "example_respond p n =
     (if p = ''a'' then (if n = 0 then Status 429 None else Status 200 (Some 1234))
      else Status 404 None)"

definition example_stamp :: "string \<Rightarrow> string" where
  "example_stamp p = ''t1''"

definition example_npm_world :: npm_world where
  "example_npm_world =
     \<lparr>argv = [''node'', ''generate-npm-stats.js''],
      parseDate = example_parseDate,
      clock = example_clock,
      respond = example_respond,
      stamp = example_stamp\<rparr>"

section \<open>Predicates used in the properties\<close>

definition unique_urls :: "entry \<Rightarrow> bool" where
  "unique_urls e = distinct (map url (fallbacks e))"

text \<open>
  The record of a package after the loop is either the record \<open>e\<close> it had before or a
  fresh record with the download count that was fetched.
\<close>

definition kept_or_fresh :: "npm_world \<Rightarrow> string \<Rightarrow> stat \<Rightarrow> stat jsobject \<Rightarrow> bool" where
  "kept_or_fresh w pkg e stats \<longleftrightarrow>
     obj_get stats pkg = Some e
     \<or> (\<exists>d. fetchPackageStats (respond w pkg) 0 = Some d
            \<and> obj_get stats pkg = Some \<lparr>downloads = Some d, lastModified = Some (stamp w pkg)\<rparr>)"

text \<open>
  What one iteration of the refresh loop for \<open>pkg\<close> makes of the record \<open>x\<close> that
  the package has at that moment.
\<close>

definition refreshed :: "npm_world \<Rightarrow> string \<Rightarrow> stat option \<Rightarrow> stat option" where
  "refreshed w pkg x =
     (case fetchPackageStats (respond w pkg) 0 of
        Some d \<Rightarrow> Some \<lparr>downloads = Some d, lastModified = Some (stamp w pkg)\<rparr>
      | None \<Rightarrow>
          (case x of
             Some e \<Rightarrow> Some e
           | None \<Rightarrow>
               if pkg \<in> set inherited_names then None
               else Some \<lparr>downloads = None, lastModified = Some (stamp w pkg)\<rparr>))"

section \<open>Properties of the object operations\<close>

lemma obj_get_set: "obj_get (obj_set k v ps) = (obj_get ps)(k \<mapsto> v)"
  by (induction ps) (auto simp: obj_get_def fun_eq_iff)

lemma obj_get_delete: "obj_get (obj_delete k ps) = (obj_get ps)(k := None)"
  by (induction ps) (auto simp: obj_get_def obj_delete_def fun_eq_iff)

lemma obj_get_None_iff: "obj_get ps k = None \<longleftrightarrow> k \<notin> set (obj_keys ps)"
  by (simp add: obj_get_def obj_keys_def map_of_eq_None_iff)

lemma obj_keys_set:
  "obj_keys (obj_set k v ps) = (if k \<in> set (obj_keys ps) then obj_keys ps else obj_keys ps @ [k])"
  by (induction ps) (force simp: obj_keys_def)+

lemma set_obj_set: "set (obj_set k v ps) \<subseteq> insert (k, v) (set ps)"
  by (induction ps) (auto split: if_splits)

lemma is_object_set: "is_object ps \<Longrightarrow> is_object (obj_set k v ps)"
  using obj_keys_set [of k v ps] by (auto simp: is_object_def obj_keys_def)

lemma is_object_delete: "is_object ps \<Longrightarrow> is_object (obj_delete k ps)"
  by (simp add: is_object_def obj_delete_def distinct_map_filter)

lemma obj_set_all:
  assumes "P v" "\<forall>p \<in> set m. P (snd p)"
  shows "\<forall>p \<in> set (obj_set k v m). P (snd p)"
  using assms set_obj_set [of k v m] by auto

lemma js_get_Own_iff: "js_get ps k = Own v \<longleftrightarrow> obj_get ps k = Some v"
  by (simp add: js_get_def split: option.splits)

lemma js_get_Inherited_iff:
  "js_get ps k = Inherited \<longleftrightarrow> obj_get ps k = None \<and> k \<in> set inherited_names"
  by (simp add: js_get_def split: option.splits)

lemma js_get_Undefined_iff:
  "js_get ps k = Undefined \<longleftrightarrow> obj_get ps k = None \<and> k \<notin> set inherited_names"
  by (simp add: js_get_def split: option.splits)

section \<open>Properties of the merge loop\<close>

text \<open>An override entry touches no key but its own.\<close>

lemma merge_step_other:
  assumes "merge_step m p = Inr m'" "k \<noteq> fst p"
  shows "obj_get m' k = obj_get m k"
  using assms
  by (cases p) (auto simp: obj_get_set obj_get_delete split: option.splits if_splits lookup.splits)

lemma merge_overrides_Cons:
  "merge_overrides m (p # ovs) = Inr m' \<longleftrightarrow>
     (\<exists>mp. merge_step m p = Inr mp \<and> merge_overrides mp ovs = Inr m')"
  by (simp split: sum.splits)

lemma merge_overrides_other:
  "merge_overrides m ovs = Inr m' \<Longrightarrow> k \<notin> set (obj_keys ovs) \<Longrightarrow> obj_get m' k = obj_get m k"
proof (induction ovs arbitrary: m)
  case Nil
  then show ?case by simp
next
  case (Cons p ovs)
  from Cons.prems(1) obtain mp where mp: "merge_step m p = Inr mp" "merge_overrides mp ovs = Inr m'"
    unfolding merge_overrides_Cons by blast
  from Cons.prems(2) have "k \<noteq> fst p" "k \<notin> set (obj_keys ovs)" by (auto simp: obj_keys_def)
  with Cons.IH [OF mp(2)] merge_step_other [OF mp(1)] show ?case by simp
qed

text \<open>
  When the loop completes, the final value at a key of the override object is decided by
  the one step that processes that key, applied to a mapping that has at this key what
  the loop started with.
\<close>

lemma merge_overrides_split:
  assumes "is_object ovs" "(k, ov) \<in> set ovs" "merge_overrides m ovs = Inr m'"
  shows "\<exists>m1 m2. obj_get m1 k = obj_get m k \<and> merge_step m1 (k, ov) = Inr m2
                 \<and> obj_get m' k = obj_get m2 k"
  using assms
proof (induction ovs arbitrary: m)
  case Nil
  then show ?case by simp
next
  case (Cons p ovs)
  from Cons.prems(3) obtain mp where mp: "merge_step m p = Inr mp" "merge_overrides mp ovs = Inr m'"
    unfolding merge_overrides_Cons by blast
  show ?case
  proof (cases "fst p = k")
    case True
    with Cons.prems(1,2) have p: "p = (k, ov)" and notin: "k \<notin> set (obj_keys ovs)"
      by (auto simp: is_object_def obj_keys_def rev_image_eqI)
    from merge_overrides_other [OF mp(2) notin] mp(1) p show ?thesis by blast
  next
    case False
    with Cons.prems(1,2) have "is_object ovs" "(k, ov) \<in> set ovs"
      by (auto simp: is_object_def)
    from Cons.IH [OF this mp(2)] obtain m1 m2 where
      "obj_get m1 k = obj_get mp k" "merge_step m1 (k, ov) = Inr m2" "obj_get m' k = obj_get m2 k"
      by blast
    moreover from merge_step_other [OF mp(1)] False have "obj_get mp k = obj_get m k" by simp
    ultimately show ?thesis by auto
  qed
qed

text \<open>The loop completes when no override key is a name of \<open>Object.prototype\<close>.\<close>

lemma merge_step_succeeds:
  "fst p \<notin> set inherited_names \<Longrightarrow> \<exists>m'. merge_step m p = Inr m'"
  by (cases p) (auto simp: js_get_def split: option.splits)

lemma merge_overrides_succeeds:
  "\<forall>p \<in> set ovs. fst p \<notin> set inherited_names \<Longrightarrow> \<exists>m'. merge_overrides m ovs = Inr m'"
proof (induction ovs arbitrary: m)
  case Nil
  show ?case by simp
next
  case (Cons p ovs)
  then obtain mp where "merge_step m p = Inr mp" using merge_step_succeeds [of p m] by auto
  moreover from Cons obtain m' where "merge_overrides mp ovs = Inr m'" by fastforce
  ultimately show ?case by simp
qed

text \<open>
  C1. For every feature id that the override object maps to an entry with a truthy
  \<open>exclude\<close>, the merged mapping has no key for that feature id, whatever
  auto-discovery produced for it and whatever \<open>replace\<close> flag or \<open>fallbacks\<close> list
  the same override entry carries. This holds of every merged mapping that the loop
  returns, and the loop returns one whenever no override key is a name of
  \<open>Object.prototype\<close>.
\<close>

theorem exclude_removes_feature:
  assumes "is_object overrides" and "(featureId, ov) \<in> set overrides" and "exclude ov"
  shows "(merge_overrides mappings overrides = Inr merged
            \<longrightarrow> featureId \<notin> set (obj_keys merged))
       \<and> ((\<forall>p \<in> set overrides. fst p \<notin> set inherited_names)
            \<longrightarrow> (\<exists>m. merge_overrides mappings overrides = Inr m))"
proof (intro conjI impI)
  assume "merge_overrides mappings overrides = Inr merged"
  from merge_overrides_split [OF assms(1,2) this] obtain m1 m2 where
    "merge_step m1 (featureId, ov) = Inr m2" "obj_get merged featureId = obj_get m2 featureId"
    by blast
  with assms(3) have "obj_get merged featureId = None" by (auto simp: obj_get_delete)
  then show "featureId \<notin> set (obj_keys merged)" by (simp add: obj_get_None_iff)
next
  assume "\<forall>p \<in> set overrides. fst p \<notin> set inherited_names"
  then show "\<exists>m. merge_overrides mappings overrides = Inr m" by (rule merge_overrides_succeeds)
qed

theorem exclude_removes_feature_witness:
  "is_object
     [(''a'', \<lparr>exclude = False, replace = False, override_fallbacks = Some [example_fallback ''u0'']\<rparr>),
      (''b'', \<lparr>exclude = True, replace = True, override_fallbacks = Some [example_fallback ''u1'']\<rparr>)]
   \<and> ''a'' \<notin> set inherited_names \<and> ''b'' \<notin> set inherited_names
   \<and> merge_overrides
        [(''b'', \<lparr>fallbacks = [example_fallback ''u2'']\<rparr>)]
        [(''a'', \<lparr>exclude = False, replace = False, override_fallbacks = Some [example_fallback ''u0'']\<rparr>),
         (''b'', \<lparr>exclude = True, replace = True, override_fallbacks = Some [example_fallback ''u1'']\<rparr>)]
       = Inr [(''a'', \<lparr>fallbacks = [example_fallback ''u0'']\<rparr>)]
   \<and> ''b'' \<notin> set (obj_keys [(''a'', \<lparr>fallbacks = [example_fallback ''u0'']\<rparr>)])"
proof -
  let ?ov = "\<lparr>exclude = True, replace = True, override_fallbacks = Some [example_fallback ''u1'']\<rparr>"
  let ?ovs = "[(''a'', \<lparr>exclude = False, replace = False,
                  override_fallbacks = Some [example_fallback ''u0'']\<rparr>), (''b'', ?ov)]"
  let ?m = "[(''b'', \<lparr>fallbacks = [example_fallback ''u2'']\<rparr>)]"
  have 1: "is_object ?ovs" by (simp add: is_object_def)
  have 2: "(''b'', ?ov) \<in> set ?ovs" by simp
  have 3: "exclude ?ov" by simp
  have 4: "merge_overrides ?m ?ovs = Inr [(''a'', \<lparr>fallbacks = [example_fallback ''u0'']\<rparr>)]"
    by code_simp
  have 5: "''a'' \<notin> set inherited_names" "''b'' \<notin> set inherited_names"
    by (simp_all add: inherited_names_def)
  then have "\<forall>p \<in> set ?ovs. fst p \<notin> set inherited_names" by simp
  with 1 4 5 exclude_removes_feature [OF 1 2 3, of ?m "[(''a'', \<lparr>fallbacks = [example_fallback ''u0'']\<rparr>)]"]
  show ?thesis by blast
qed

text \<open>
  C2. For every feature id whose override entry has \<open>replace\<close> set, no \<open>exclude\<close> and
  a \<open>fallbacks\<close> list \<open>F\<close>, the merged mapping holds for that feature id the record
  with exactly the list \<open>F\<close>, in the same order, also when \<open>F\<close> is empty; what
  auto-discovery found for the feature is discarded. This holds of every merged mapping
  that the loop returns, and the loop returns one whenever no override key is a name of
  \<open>Object.prototype\<close>.
\<close>

theorem replace_sets_exactly:
  assumes "is_object overrides" and "(featureId, ov) \<in> set overrides"
    and "\<not> exclude ov" and "replace ov" and "override_fallbacks ov = Some F"
  shows "(merge_overrides mappings overrides = Inr merged
            \<longrightarrow> obj_get merged featureId = Some \<lparr>fallbacks = F\<rparr>)
       \<and> ((\<forall>p \<in> set overrides. fst p \<notin> set inherited_names)
            \<longrightarrow> (\<exists>m. merge_overrides mappings overrides = Inr m))"
proof (intro conjI impI)
  assume "merge_overrides mappings overrides = Inr merged"
  from merge_overrides_split [OF assms(1,2) this] obtain m1 m2 where
    "merge_step m1 (featureId, ov) = Inr m2" "obj_get merged featureId = obj_get m2 featureId"
    by blast
  with assms(3,4,5) show "obj_get merged featureId = Some \<lparr>fallbacks = F\<rparr>"
    by (auto simp: obj_get_set)
next
  assume "\<forall>p \<in> set overrides. fst p \<notin> set inherited_names"
  then show "\<exists>m. merge_overrides mappings overrides = Inr m" by (rule merge_overrides_succeeds)
qed

theorem replace_sets_exactly_witness:
  "is_object [(''b'', \<lparr>exclude = False, replace = True, override_fallbacks = Some []\<rparr>)]
   \<and> ''b'' \<notin> set inherited_names
   \<and> merge_overrides
         [(''a'', \<lparr>fallbacks = [example_fallback ''u0'']\<rparr>),
          (''b'', \<lparr>fallbacks = [example_fallback ''u1'', example_fallback ''u2'']\<rparr>)]
         [(''b'', \<lparr>exclude = False, replace = True, override_fallbacks = Some []\<rparr>)]
       = Inr [(''a'', \<lparr>fallbacks = [example_fallback ''u0'']\<rparr>), (''b'', \<lparr>fallbacks = []\<rparr>)]
   \<and> obj_get [(''a'', \<lparr>fallbacks = [example_fallback ''u0'']\<rparr>), (''b'', \<lparr>fallbacks = []\<rparr>)] ''b''
       = Some \<lparr>fallbacks = []\<rparr>"
proof -
  let ?ov = "\<lparr>exclude = False, replace = True, override_fallbacks = Some []\<rparr>"
  let ?m = "[(''a'', \<lparr>fallbacks = [example_fallback ''u0'']\<rparr>),
             (''b'', \<lparr>fallbacks = [example_fallback ''u1'', example_fallback ''u2'']\<rparr>)]"
  let ?r = "[(''a'', \<lparr>fallbacks = [example_fallback ''u0'']\<rparr>), (''b'', \<lparr>fallbacks = []\<rparr>)]"
  have 1: "is_object [(''b'', ?ov)]" by (simp add: is_object_def)
  have 2: "(''b'', ?ov) \<in> set [(''b'', ?ov)]" by simp
  have 3: "\<not> exclude ?ov" "replace ?ov" "override_fallbacks ?ov = Some []" by simp_all
  have 4: "merge_overrides ?m [(''b'', ?ov)] = Inr ?r" by code_simp
  have 5: "''b'' \<notin> set inherited_names" by (simp add: inherited_names_def)
  then have "\<forall>p \<in> set [(''b'', ?ov)]. fst p \<notin> set inherited_names" by simp
  with 1 4 5 replace_sets_exactly [OF 1 2 3, of ?m ?r] show ?thesis by blast
qed

text \<open>
  C3. For every feature id whose override entry has neither \<open>exclude\<close> nor \<open>replace\<close>
  but a \<open>fallbacks\<close> list \<open>F\<close>: when auto-discovery produced a list \<open>A\<close> for the feature,
  the merged list is \<open>A\<close> followed by \<open>F\<close>, nothing removed; when it produced no entry,
  a new entry with exactly \<open>F\<close> is created. This holds of every merged mapping that the
  loop returns, and the loop returns one whenever no override key is a name of
  \<open>Object.prototype\<close>; feature ids are names of the feature catalogue, which has no such
  name.
\<close>

theorem augment_appends:
  assumes "is_object overrides" and "(featureId, ov) \<in> set overrides"
    and "\<not> exclude ov" and "\<not> replace ov" and "override_fallbacks ov = Some F"
  shows "(merge_overrides mappings overrides = Inr merged
            \<longrightarrow> obj_get merged featureId =
                 (case obj_get mappings featureId of
                    Some e \<Rightarrow> Some \<lparr>fallbacks = fallbacks e @ F\<rparr>
                  | None \<Rightarrow> Some \<lparr>fallbacks = F\<rparr>))
       \<and> ((\<forall>p \<in> set overrides. fst p \<notin> set inherited_names)
            \<longrightarrow> (\<exists>m. merge_overrides mappings overrides = Inr m))"
proof (intro conjI impI)
  assume "merge_overrides mappings overrides = Inr merged"
  from merge_overrides_split [OF assms(1,2) this] obtain m1 m2 where m:
    "obj_get m1 featureId = obj_get mappings featureId"
    "merge_step m1 (featureId, ov) = Inr m2" "obj_get merged featureId = obj_get m2 featureId"
    by blast
  show "obj_get merged featureId =
          (case obj_get mappings featureId of
             Some e \<Rightarrow> Some \<lparr>fallbacks = fallbacks e @ F\<rparr>
           | None \<Rightarrow> Some \<lparr>fallbacks = F\<rparr>)"
  proof (cases "js_get m1 featureId")
    case (Own e)
    then have "obj_get mappings featureId = Some e" using m(1) by (simp add: js_get_Own_iff)
    with Own m(2,3) assms(3,4,5) show ?thesis by (auto simp: obj_get_set)
  next
    case Inherited
    with m(2) assms(3,4,5) show ?thesis by simp
  next
    case Undefined
    then have "obj_get mappings featureId = None" using m(1) by (simp add: js_get_Undefined_iff)
    with Undefined m(2,3) assms(3,4,5) show ?thesis by (auto simp: obj_get_set)
  qed
next
  assume "\<forall>p \<in> set overrides. fst p \<notin> set inherited_names"
  then show "\<exists>m. merge_overrides mappings overrides = Inr m" by (rule merge_overrides_succeeds)
qed

theorem augment_appends_witness:
  "is_object [(''b'', \<lparr>exclude = False, replace = False,
                  override_fallbacks = Some [example_fallback ''u1'', example_fallback ''u3'']\<rparr>)]
   \<and> ''b'' \<notin> set inherited_names
   \<and> merge_overrides
         [(''b'', \<lparr>fallbacks = [example_fallback ''u1'', example_fallback ''u2'']\<rparr>)]
         [(''b'', \<lparr>exclude = False, replace = False,
              override_fallbacks = Some [example_fallback ''u1'', example_fallback ''u3'']\<rparr>)]
       = Inr [(''b'', \<lparr>fallbacks = [example_fallback ''u1'', example_fallback ''u2'',
                                     example_fallback ''u1'', example_fallback ''u3'']\<rparr>)]
   \<and> obj_get [(''b'', \<lparr>fallbacks = [example_fallback ''u1'', example_fallback ''u2'',
                                     example_fallback ''u1'', example_fallback ''u3'']\<rparr>)] ''b''
       = Some \<lparr>fallbacks = [example_fallback ''u1'', example_fallback ''u2'',
                           example_fallback ''u1'', example_fallback ''u3'']\<rparr>"
proof -
  let ?ov = "\<lparr>exclude = False, replace = False,
              override_fallbacks = Some [example_fallback ''u1'', example_fallback ''u3'']\<rparr>"
  let ?m = "[(''b'', \<lparr>fallbacks = [example_fallback ''u1'', example_fallback ''u2'']\<rparr>)]"
  let ?r = "[(''b'', \<lparr>fallbacks = [example_fallback ''u1'', example_fallback ''u2'',
                                     example_fallback ''u1'', example_fallback ''u3'']\<rparr>)]"
  have 1: "is_object [(''b'', ?ov)]" by (simp add: is_object_def)
  have 2: "(''b'', ?ov) \<in> set [(''b'', ?ov)]" by simp
  have 3: "\<not> exclude ?ov" "\<not> replace ?ov"
    "override_fallbacks ?ov = Some [example_fallback ''u1'', example_fallback ''u3'']" by simp_all
  have 4: "obj_get ?m ''b'' = Some \<lparr>fallbacks = [example_fallback ''u1'', example_fallback ''u2'']\<rparr>"
    by (simp add: obj_get_def)
  have 5: "''b'' \<notin> set inherited_names" by (simp add: inherited_names_def)
  then have 7: "\<forall>p \<in> set [(''b'', ?ov)]. fst p \<notin> set inherited_names" by simp
  have 6: "merge_overrides ?m [(''b'', ?ov)] = Inr ?r" by code_simp
  from 1 5 6 7 augment_appends [OF 1 2 3, of ?m ?r] 4 show ?thesis by simp
qed

text \<open>
  The hypothesis on the override keys is needed for the loop to complete: an augmenting
  entry under a name of \<open>Object.prototype\<close> that is no own key ends the run with a
  \<open>TypeError\<close>.
\<close>

lemma augment_inherited_name_throws:
  "merge_overrides []
     [(''constructor'', \<lparr>exclude = False, replace = False,
         override_fallbacks = Some [example_fallback ''u0'']\<rparr>)] = Inl TypeError"
  by (simp add: js_get_def obj_get_def inherited_names_def)

section \<open>Properties of slugToPath\<close>

subsection \<open>Lower-casing and replacing\<close>

lemma lower_char_idem: "lower_char (lower_char c) = lower_char c"
  by (auto simp: lower_char_def)

lemma lower_char_eq_colon: "lower_char c = CHR '':'' \<longleftrightarrow> c = CHR '':''"
  by (auto simp: lower_char_def)

lemma lower_char_eq_star: "lower_char c = CHR ''*'' \<longleftrightarrow> c = CHR ''*''"
  by (auto simp: lower_char_def)

lemma lower_char_eq_underscore: "lower_char c = CHR ''_'' \<longleftrightarrow> c = CHR ''_''"
  by (auto simp: lower_char_def)

lemma toLowerCase_no_underscore:
  assumes "CHR ''_'' \<notin> set s"
  shows "CHR ''_'' \<notin> set (toLowerCase s)"
proof
  assume "CHR ''_'' \<in> set (toLowerCase s)"
  then obtain c where c: "c \<in> set s" "lower_char c = CHR ''_''"
    by (auto simp: toLowerCase_def)
  then have "c = CHR ''_''" by (simp add: lower_char_eq_underscore)
  with c assms show False by simp
qed

lemma toLowerCase_append: "toLowerCase (a @ b) = toLowerCase a @ toLowerCase b"
  by (simp add: toLowerCase_def)

lemma toLowerCase_fixed: "\<forall>c \<in> set s. lower_char c = c \<Longrightarrow> toLowerCase s = s"
  by (simp add: toLowerCase_def map_idI)

lemma set_replace_all: "set (replace_all pat rep s) \<subseteq> set rep \<union> set s"
proof (induction pat rep s rule: replace_all.induct)
  case (1 pat rep s)
  show ?case
  proof (cases "pat \<noteq> [] \<and> prefix pat s")
    case True
    with 1(1) have "set (replace_all pat rep (drop (length pat) s)) \<subseteq> set rep \<union> set s"
      by (auto dest: in_set_dropD)
    with True show ?thesis by (subst replace_all.simps) auto
  next
    case False
    show ?thesis
    proof (cases s)
      case Nil
      with False show ?thesis by (subst replace_all.simps) auto
    next
      case (Cons c t)
      with False 1(2) have "set (replace_all pat rep t) \<subseteq> set rep \<union> set t" by blast
      with False Cons show ?thesis by (subst replace_all.simps) auto
    qed
  qed
qed

lemma replace_all_absent:
  "c \<in> set pat \<Longrightarrow> c \<notin> set s \<Longrightarrow> replace_all pat rep s = s"
proof (induction s)
  case Nil
  then show ?case by (subst replace_all.simps) simp
next
  case (Cons x s)
  then have "\<not> set pat \<subseteq> set (x # s)" by auto
  then have "\<not> prefix pat (x # s)" using set_mono_prefix by blast
  with Cons show ?case by (subst replace_all.simps) simp
qed

lemma replace_all_single_Cons:
  "replace_all [c] rep (x # s) =
     (if x = c then rep @ replace_all [c] rep s else x # replace_all [c] rep s)"
  by (subst replace_all.simps) simp

lemma replace_all_Nil: "replace_all pat rep [] = []"
  by (subst replace_all.simps) simp

lemma replace_all_single_removes:
  "c \<notin> set rep \<Longrightarrow> c \<notin> set (replace_all [c] rep s)"
  by (induction s) (auto simp: replace_all_single_Cons replace_all_Nil)

lemma replace_all_keeps_absent:
  "c \<notin> set rep \<Longrightarrow> c \<notin> set s \<Longrightarrow> c \<notin> set (replace_all pat rep s)"
  using set_replace_all [of pat rep s] by blast

lemma replace_all_lower_fixed:
  assumes "\<forall>c \<in> set rep. lower_char c = c" "\<forall>c \<in> set s. lower_char c = c"
  shows "\<forall>c \<in> set (replace_all pat rep s). lower_char c = c"
  using assms set_replace_all [of pat rep s] by blast

lemma slugToPath_no_colon: "CHR '':'' \<notin> set (slugToPath sl)"
  unfolding slugToPath_def
  by (intro replace_all_keeps_absent replace_all_single_removes) simp_all

lemma slugToPath_no_star: "CHR ''*'' \<notin> set (slugToPath sl)"
  unfolding slugToPath_def
  by (intro replace_all_single_removes) simp_all

lemma slugToPath_lower_fixed: "\<forall>c \<in> set (slugToPath sl). lower_char c = c"
  unfolding slugToPath_def
  by (intro replace_all_lower_fixed) (simp_all add: toLowerCase_def lower_char_idem, simp_all add: lower_char_def)

lemma slugToPath_idem: "slugToPath (slugToPath sl) = slugToPath sl"
proof -
  let ?p = "slugToPath sl"
  have 1: "toLowerCase ?p = ?p" using slugToPath_lower_fixed by (rule toLowerCase_fixed)
  have 2: "replace_all ''::'' ''_doublecolon_'' ?p = ?p"
    by (rule replace_all_absent [of "CHR '':''"]) (simp_all add: slugToPath_no_colon)
  have 3: "replace_all '':'' ''_colon_'' ?p = ?p"
    by (rule replace_all_absent [of "CHR '':''"]) (simp_all add: slugToPath_no_colon)
  have 4: "replace_all ''*'' ''_star_'' ?p = ?p"
    by (rule replace_all_absent [of "CHR ''*''"]) (simp_all add: slugToPath_no_star)
  show ?thesis
    by (subst (1) slugToPath_def) (simp only: 1 2 3 4)
qed


lemma replace_all_single_prefix:
  "c \<notin> set p \<Longrightarrow> replace_all [c] rep (p @ x) = p @ replace_all [c] rep x"
  by (induction p) (auto simp: replace_all_single_Cons)

lemma replace_dc_Cons:
  "replace_all ''::'' rep (c # s) =
     (if c = CHR '':'' \<and> s \<noteq> [] \<and> hd s = CHR '':'' then rep @ replace_all ''::'' rep (tl s)
      else c # replace_all ''::'' rep s)"
  by (subst replace_all.simps) (cases s; auto)

lemma replace_chain_escape:
  "replace_all ''*'' ''_star_'' (replace_all '':'' ''_colon_''
     (replace_all ''::'' ''_doublecolon_'' s)) = escape s"
proof (induction s rule: escape.induct)
  case 1
  show ?case by (simp add: replace_all_Nil)
next
  case (2 c s)
  show ?case
  proof (cases "c = CHR '':''")
    case True
    show ?thesis
    proof (cases s)
      case Nil
      with True show ?thesis
        by (simp add: replace_dc_Cons replace_all_Nil replace_all_single_Cons
              replace_all_single_prefix [of _ "''_colon_''" _ "[]", simplified])
    next
      case (Cons d t)
      show ?thesis
      proof (cases "d = CHR '':''")
        case d: True
        from 2(1) [OF True Cons d]
        show ?thesis using True Cons d
          by (simp add: replace_dc_Cons
                replace_all_single_prefix [of _ "''_doublecolon_''", simplified])
      next
        case d: False
        from 2(2) [OF True Cons d]
        show ?thesis using True Cons d
          by (simp add: replace_dc_Cons replace_all_single_Cons
                replace_all_single_prefix [of _ "''_colon_''", simplified])
      qed
    qed
  next
    case False
    show ?thesis
    proof (cases "c = CHR ''*''")
      case True
      from 2(3) [OF False True] show ?thesis using True
        by (simp add: replace_dc_Cons replace_all_single_Cons)
    next
      case star: False
      from 2(4) [OF False star] show ?thesis using False star
        by (simp add: replace_dc_Cons replace_all_single_Cons)
    qed
  qed
qed

lemma slugToPath_escape: "slugToPath sl = escape (toLowerCase sl)"
  by (simp add: slugToPath_def replace_chain_escape)

subsection \<open>Escaping and decoding\<close>

lemma escape_colon_colon: "escape (CHR '':'' # CHR '':'' # t) = ''_doublecolon_'' @ escape t"
  by simp

lemma escape_colon_other:
  "d \<noteq> CHR '':'' \<Longrightarrow> escape (CHR '':'' # d # t) = ''_colon_'' @ escape (d # t)"
  by simp

lemma escape_colon_end: "escape [CHR '':''] = ''_colon_''"
  by simp

lemma escape_star: "escape (CHR ''*'' # s) = ''_star_'' @ escape s"
  by simp

lemma escape_plain:
  "c \<noteq> CHR '':'' \<Longrightarrow> c \<noteq> CHR ''*'' \<Longrightarrow> escape (c # s) = c # escape s"
  by simp

lemmas escape_eqs = escape_colon_colon escape_colon_other escape_colon_end escape_star escape_plain

lemma unescape_dc: "unescape (''_doublecolon_'' @ x) = ''::'' @ unescape x"
  by simp

lemma unescape_c: "unescape (''_colon_'' @ x) = '':'' @ unescape x"
  by simp

lemma unescape_s: "unescape (''_star_'' @ x) = ''*'' @ unescape x"
  by simp

lemma unescape_plain: "c \<noteq> CHR ''_'' \<Longrightarrow> unescape (c # x) = c # unescape x"
  by simp

lemma unescape_escape: "CHR ''_'' \<notin> set s \<Longrightarrow> unescape (escape s) = s"
proof (induction s rule: escape.induct)
  case 1
  show ?case by simp
next
  case (2 c s)
  from 2(5) have c: "c \<noteq> CHR ''_''" and s: "CHR ''_'' \<notin> set s" by auto
  show ?case
  proof (cases "c = CHR '':''")
    case True
    show ?thesis
    proof (cases s)
      case Nil
      with True show ?thesis
        using unescape_c [of "[]"] by (simp del: escape.simps unescape.simps(2) add: escape_colon_end)
    next
      case (Cons d t)
      show ?thesis
      proof (cases "d = CHR '':''")
        case d: True
        from s Cons have "CHR ''_'' \<notin> set t" by simp
        from 2(1) [OF True Cons d this] show ?thesis
          unfolding True Cons d escape_colon_colon unescape_dc by simp
      next
        case d: False
        from 2(2) [OF True Cons d s] show ?thesis
          unfolding True Cons escape_colon_other [OF d] unescape_c by simp
      qed
    qed
  next
    case False
    show ?thesis
    proof (cases "c = CHR ''*''")
      case True
      from 2(3) [OF False True s] show ?thesis
        unfolding True escape_star unescape_s by simp
    next
      case star: False
      from 2(4) [OF False star s] show ?thesis
        unfolding escape_plain [OF False star] unescape_plain [OF c] by simp
    qed
  qed
qed

lemma escape_inj:
  assumes "CHR ''_'' \<notin> set a" "CHR ''_'' \<notin> set b" "escape a = escape b"
  shows "a = b"
proof -
  have "a = unescape (escape a)" using assms(1) by (rule unescape_escape [symmetric])
  also have "\<dots> = unescape (escape b)" by (simp only: assms(3))
  also have "\<dots> = b" using assms(2) by (rule unescape_escape)
  finally show ?thesis .
qed


lemma escape_colon_length:
  "length (escape s) + 6 \<le> length (escape (CHR '':'' # s)) \<and>
   length (escape (CHR '':'' # s)) \<le> length (escape s) + 7"
proof (induction s)
  case Nil
  show ?case by simp
next
  case (Cons c s)
  show ?case
  proof (cases "c = CHR '':''")
    case True
    with Cons show ?thesis by (cases s) (simp_all split: if_splits)
  next
    case False
    then show ?thesis by simp
  qed
qed

lemma escape_colon_neq: "escape (CHR '':'' # s) \<noteq> escape s"
proof
  assume "escape (CHR '':'' # s) = escape s"
  then have "length (escape (CHR '':'' # s)) = length (escape s)" by (simp only:)
  with escape_colon_length [of s] show False by linarith
qed

lemma escape_variants_Nil:
  "distinct [escape (''::'' @ q), escape ('':'' @ q), escape (''*'' @ q)]"
proof (cases q)
  case Nil
  show ?thesis unfolding Nil by simp
next
  case (Cons d t)
  show ?thesis
  proof (cases "d = CHR '':''")
    case True
    have "escape (''::'' @ q) = ''_doublecolon_'' @ escape (CHR '':'' # t)"
      unfolding Cons True by simp
    moreover have "escape ('':'' @ q) = ''_doublecolon_'' @ escape t"
      unfolding Cons True by simp
    moreover have "escape (''*'' @ q) = ''_star_'' @ escape q" by simp
    ultimately show ?thesis using escape_colon_neq [of t] by (simp del: escape.simps)
  next
    case False
    have "escape (''::'' @ q) = ''_doublecolon_'' @ escape q" by simp
    moreover have "escape ('':'' @ q) = ''_colon_'' @ escape q"
      unfolding Cons using False by simp
    moreover have "escape (''*'' @ q) = ''_star_'' @ escape q" by simp
    ultimately show ?thesis by (simp del: escape.simps)
  qed
qed

lemma escape_variants_colon:
  "distinct [escape ('':'' @ ''::'' @ q), escape ('':'' @ '':'' @ q), escape ('':'' @ ''*'' @ q)]"
proof -
  have "escape ('':'' @ ''::'' @ q) = ''_doublecolon_'' @ escape (CHR '':'' # q)" by simp
  moreover have "escape ('':'' @ '':'' @ q) = ''_doublecolon_'' @ escape q" by simp
  moreover have "escape ('':'' @ ''*'' @ q) = ''_colon_'' @ ''_star_'' @ escape q" by simp
  ultimately show ?thesis using escape_colon_neq [of q] by (simp del: escape.simps)
qed

lemma escape_variants:
  "distinct [escape (p @ ''::'' @ q), escape (p @ '':'' @ q), escape (p @ ''*'' @ q)]"
proof (induction p rule: escape.induct)
  case 1
  show ?case using escape_variants_Nil [of q] by (simp del: escape.simps)
next
  case (2 c s)
  show ?case
  proof (cases "c = CHR '':''")
    case True
    show ?thesis
    proof (cases s)
      case Nil
      show ?thesis unfolding True Nil using escape_variants_colon [of q] by (simp del: escape.simps)
    next
      case (Cons d t)
      show ?thesis
      proof (cases "d = CHR '':''")
        case d: True
        have "\<And>x. escape ((c # s) @ x) = ''_doublecolon_'' @ escape (t @ x)"
          unfolding True Cons d by simp
        with 2(1) [OF True Cons d] show ?thesis by (simp del: escape.simps)
      next
        case d: False
        have "\<And>x. escape ((c # s) @ x) = ''_colon_'' @ escape (s @ x)"
          unfolding True Cons using d by simp
        with 2(2) [OF True Cons d] show ?thesis by (simp del: escape.simps)
      qed
    qed
  next
    case False
    show ?thesis
    proof (cases "c = CHR ''*''")
      case True
      have "\<And>x. escape ((c # s) @ x) = ''_star_'' @ escape (s @ x)"
        unfolding True by simp
      with 2(3) [OF False True] show ?thesis by (simp del: escape.simps)
    next
      case star: False
      have "\<And>x. escape ((c # s) @ x) = c # escape (s @ x)"
        using False star by simp
      with 2(4) [OF False star] show ?thesis by (simp del: escape.simps)
    qed
  qed
qed

text \<open>
  C7. The conversion is idempotent for every slug. It keeps the three escaped tokens
  apart: a slug with \<open>::\<close>, the same slug with \<open>:\<close> and the same slug with \<open>*\<close> at
  that place have three different paths. On slugs without an underscore it is injective
  up to the case of letters, which the lower-casing step removes.
\<close>

theorem slugToPath_idempotent_injective:
  "slugToPath (slugToPath sl) = slugToPath sl
   \<and> distinct [slugToPath (p @ ''::'' @ q), slugToPath (p @ '':'' @ q), slugToPath (p @ ''*'' @ q)]
   \<and> (CHR ''_'' \<notin> set a \<and> CHR ''_'' \<notin> set b \<and> slugToPath a = slugToPath b
        \<longrightarrow> toLowerCase a = toLowerCase b)"
proof (intro conjI impI)
  show "slugToPath (slugToPath sl) = slugToPath sl" by (rule slugToPath_idem)
next
  have "toLowerCase ''::'' = ''::''" "toLowerCase '':'' = '':''" "toLowerCase ''*'' = ''*''"
    by (simp_all add: toLowerCase_def lower_char_def)
  then show "distinct [slugToPath (p @ ''::'' @ q), slugToPath (p @ '':'' @ q),
                       slugToPath (p @ ''*'' @ q)]"
    using escape_variants [of "toLowerCase p" "toLowerCase q"]
    by (simp only: slugToPath_escape toLowerCase_append)
next
  assume h: "CHR ''_'' \<notin> set a \<and> CHR ''_'' \<notin> set b \<and> slugToPath a = slugToPath b"
  then have "CHR ''_'' \<notin> set (toLowerCase a)" "CHR ''_'' \<notin> set (toLowerCase b)"
    by (simp_all add: toLowerCase_no_underscore)
  moreover from h have "escape (toLowerCase a) = escape (toLowerCase b)"
    by (simp only: slugToPath_escape)
  ultimately show "toLowerCase a = toLowerCase b" by (rule escape_inj)
qed

theorem slugToPath_idempotent_injective_witness:
  "slugToPath (slugToPath ''Set::difference'') = slugToPath ''Set::difference''
   \<and> slugToPath ''Set::difference'' \<noteq> slugToPath ''Set:difference''
   \<and> CHR ''_'' \<notin> set ''Set::difference'' \<and> CHR ''_'' \<notin> set ''set::Difference''
   \<and> slugToPath ''Set::difference'' = slugToPath ''set::Difference''
   \<and> toLowerCase ''Set::difference'' = toLowerCase ''set::Difference''"
proof -
  have 1: "CHR ''_'' \<notin> set ''Set::difference''" "CHR ''_'' \<notin> set ''set::Difference''" by simp_all
  have 2: "slugToPath ''Set::difference'' = slugToPath ''set::Difference''"
    by (simp add: slugToPath_def toLowerCase_def lower_char_def)
  from 1 2 slugToPath_idempotent_injective
    [of "''Set::difference''" "''Set''" "''difference''" "''Set::difference''" "''set::Difference''"]
  show ?thesis by simp
qed

text \<open>
  The restriction to slugs without an underscore is needed: a slug that already spells out
  an escape sequence has the path of the slug with the token itself.
\<close>

lemma slugToPath_spelled_out_escape: "slugToPath ''_colon_hover'' = slugToPath '':hover''"
  by (simp add: slugToPath_def toLowerCase_def lower_char_def replace_all.simps)

section \<open>Properties of auto-discovery\<close>

text \<open>The \<open>Map\<close> built from the links is keyed by url.\<close>

lemma link_map_invariant:
  assumes "is_object m" "\<forall>(k, l) \<in> set m. k = link_url l"
  shows "is_object (foldl (\<lambda>m l. obj_set (link_url l) l m) m ls)
       \<and> (\<forall>(k, l) \<in> set (foldl (\<lambda>m l. obj_set (link_url l) l m) m ls). k = link_url l)"
  using assms
proof (induction ls arbitrary: m)
  case Nil
  then show ?case by simp
next
  case (Cons x ls)
  have "is_object (obj_set (link_url x) x m)" using Cons.prems(1) by (rule is_object_set)
  moreover have "\<forall>(k, l) \<in> set (obj_set (link_url x) x m). k = link_url l"
    using Cons.prems(2) set_obj_set [of "link_url x" x m] by auto
  ultimately show ?case using Cons.IH by simp
qed

lemma uniqueLinks_distinct: "distinct (map link_url (uniqueLinks ls))"
proof -
  let ?m = "foldl (\<lambda>m l. obj_set (link_url l) l m) [] ls"
  have inv: "is_object ?m" "\<forall>(k, l) \<in> set ?m. k = link_url l"
    using link_map_invariant [of "[]" ls] by (simp_all add: is_object_def)
  from inv(2) have "map link_url (uniqueLinks ls) = map fst ?m"
    unfolding uniqueLinks_def by auto
  moreover from inv(1) have "distinct (map fst ?m)" by (simp only: is_object_def)
  ultimately show ?thesis by (simp only:)
qed

lemma toFallback_url: "url (toFallback l) = link_url l"
  by (simp add: toFallback_def)

lemma generate_step_unique:
  assumes "\<forall>p \<in> set m. unique_urls (snd p)"
  shows "\<forall>p \<in> set (generate_step mdn gs pgs m fid). unique_urls (snd p)"
proof -
  have new: "unique_urls \<lparr>fallbacks = map toFallback (uniqueLinks ls)\<rparr>" for ls
    using uniqueLinks_distinct [of ls] by (simp add: unique_urls_def comp_def toFallback_url)
  show ?thesis
    unfolding generate_step_def Let_def
    using assms obj_set_all [of unique_urls, OF new assms] by simp
qed

lemma generate_loop_unique:
  "\<forall>p \<in> set m. unique_urls (snd p) \<Longrightarrow>
   \<forall>p \<in> set (foldl (generate_step mdn gs pgs) m fs). unique_urls (snd p)"
proof (induction fs arbitrary: m)
  case Nil
  then show ?case by simp
next
  case (Cons f fs)
  from Cons.IH [OF generate_step_unique [OF Cons.prems]] show ?case by simp
qed

lemma sort_loop_subset:
  "set acc \<subseteq> set m \<Longrightarrow>
   set (foldl (\<lambda>sorted key. case obj_get m key of Some v \<Rightarrow> obj_set key v sorted | None \<Rightarrow> sorted)
          acc ks) \<subseteq> set m"
proof (induction ks arbitrary: acc)
  case Nil
  then show ?case by simp
next
  case (Cons k ks)
  have "set (case obj_get m k of Some v \<Rightarrow> obj_set k v acc | None \<Rightarrow> acc) \<subseteq> set m"
    using Cons.prems set_obj_set [of k _ acc]
    by (auto simp: obj_get_def split: option.splits dest!: map_of_SomeD)
  from Cons.IH [OF this] show ?case by simp
qed

lemma set_sort_by_key: "set (sort_by_key m) \<subseteq> set m"
  unfolding sort_by_key_def by (rule sort_loop_subset) simp

text \<open>
  C5. Every fallback list that the auto-discovery stage returns for a feature has
  pairwise different urls: the links of all slugs of the feature are deduplicated by url
  before the fallbacks are built.
\<close>

theorem auto_discovery_unique_urls:
  assumes "(featureId, e) \<in> set (generateMappings mdnDocsMapping gs pgs fs)"
  shows "distinct (map url (fallbacks e))"
proof -
  have "\<forall>p \<in> set (foldl (generate_step mdnDocsMapping gs pgs) [] fs). unique_urls (snd p)"
    by (rule generate_loop_unique) simp
  with assms set_sort_by_key show ?thesis
    unfolding generateMappings_def unique_urls_def by fastforce
qed

theorem auto_discovery_unique_urls_witness:
  "(''intersection-observer'', example_entry)
     \<in> set (generateMappings
              [(''intersection-observer'',
                [\<lparr>slug = ''Web/API/Intersection_Observer_API''\<rparr>,
                 \<lparr>slug = ''Web/API/IntersectionObserver''\<rparr>])]
              example_getMDNSlug example_pages [''array-group'', ''intersection-observer''])
   \<and> distinct (map url (fallbacks (example_entry)))"
proof -
  have h: "(''intersection-observer'', example_entry)
     \<in> set (generateMappings
              [(''intersection-observer'',
                [\<lparr>slug = ''Web/API/Intersection_Observer_API''\<rparr>,
                 \<lparr>slug = ''Web/API/IntersectionObserver''\<rparr>])]
              example_getMDNSlug example_pages [''array-group'', ''intersection-observer''])"
    by code_simp
  from h auto_discovery_unique_urls [OF h] show ?thesis by simp
qed

subsection \<open>Key order\<close>

lemma sort_loop_keys:
  assumes "distinct ks" "set ks \<inter> set (obj_keys acc) = {}" "set ks \<subseteq> set (obj_keys m)"
  shows "obj_keys (foldl (\<lambda>sorted key. case obj_get m key of Some v \<Rightarrow> obj_set key v sorted
                                           | None \<Rightarrow> sorted) acc ks)
         = obj_keys acc @ ks"
  using assms
proof (induction ks arbitrary: acc)
  case Nil
  then show ?case by simp
next
  case (Cons k ks)
  from Cons.prems(3) obtain v where v: "obj_get m k = Some v"
    using obj_get_None_iff [of m k] by (cases "obj_get m k") auto
  from Cons.prems(2) have keys: "obj_keys (obj_set k v acc) = obj_keys acc @ [k]"
    by (simp add: obj_keys_set)
  have "obj_keys (foldl (\<lambda>sorted key. case obj_get m key of Some v \<Rightarrow> obj_set key v sorted
                                           | None \<Rightarrow> sorted) (obj_set k v acc) ks)
         = obj_keys (obj_set k v acc) @ ks"
    using Cons.prems by (intro Cons.IH) (auto simp: keys)
  with v keys show ?case by simp
qed

lemma obj_keys_sort_by_key: "is_object m \<Longrightarrow> obj_keys (sort_by_key m) = sort (obj_keys m)"
  unfolding sort_by_key_def
  using sort_loop_keys [of "sort (obj_keys m)" "[]" m]
  by (simp add: is_object_def obj_keys_def)

lemma is_object_generate_step: "is_object m \<Longrightarrow> is_object (generate_step mdn gs pgs m fid)"
  by (simp add: generate_step_def Let_def is_object_set)

lemma is_object_generate_loop:
  "is_object m \<Longrightarrow> is_object (foldl (generate_step mdn gs pgs) m fs)"
  by (induction fs arbitrary: m) (simp_all add: is_object_generate_step)

lemma generateMappings_sorted: "sorted (obj_keys (generateMappings mdn gs pgs fs))"
proof -
  have "is_object (foldl (generate_step mdn gs pgs) [] fs)"
    by (rule is_object_generate_loop) (simp add: is_object_def)
  then show ?thesis by (simp add: generateMappings_def obj_keys_sort_by_key)
qed

lemma generateMappings_is_object: "is_object (generateMappings mdn gs pgs fs)"
proof -
  have "is_object (foldl (generate_step mdn gs pgs) [] fs)"
    by (rule is_object_generate_loop) (simp add: is_object_def)
  then have "obj_keys (generateMappings mdn gs pgs fs)
             = sort (obj_keys (foldl (generate_step mdn gs pgs) [] fs))"
    and "distinct (obj_keys (foldl (generate_step mdn gs pgs) [] fs))"
    by (simp_all add: generateMappings_def obj_keys_sort_by_key is_object_def obj_keys_def [symmetric])
  then have "distinct (obj_keys (generateMappings mdn gs pgs fs))" by simp
  then show ?thesis by (simp add: is_object_def obj_keys_def)
qed

text \<open>
  C4. The claim asks for ascending keys in the merged mapping. \<open>generateMappings\<close> sorts
  its result (\<open>generateMappings_sorted\<close>), but the merge loop runs after the sort and an
  override entry for a feature that was not auto-discovered is appended behind the sorted
  keys. In the run below auto-discovery finds \<open>intersection-observer\<close> and the override
  file adds \<open>array-group\<close>: the merged mapping lists \<open>intersection-observer\<close> first.
\<close>

theorem override_created_key_breaks_order:
  "main (example_world (Document
      [(''array-group'', \<lparr>exclude = False, replace = False,
          override_fallbacks = Some [example_fallback ''https://github.com/es-shims/Array.prototype.group'']\<rparr>)]))
     = Inr (example_mappings @
         [(''array-group'',
           \<lparr>fallbacks = [example_fallback ''https://github.com/es-shims/Array.prototype.group'']\<rparr>)])
   \<and> obj_keys (example_mappings @
         [(''array-group'',
           \<lparr>fallbacks = [example_fallback ''https://github.com/es-shims/Array.prototype.group'']\<rparr>)])
       = [''intersection-observer'', ''array-group'']
   \<and> \<not> sorted [''intersection-observer'', ''array-group'']"
proof (intro conjI)
  show "main (example_world (Document
      [(''array-group'', \<lparr>exclude = False, replace = False,
          override_fallbacks = Some [example_fallback ''https://github.com/es-shims/Array.prototype.group'']\<rparr>)]))
     = Inr (example_mappings @
         [(''array-group'',
           \<lparr>fallbacks = [example_fallback ''https://github.com/es-shims/Array.prototype.group'']\<rparr>)])"
    by code_simp
  show "obj_keys (example_mappings @
         [(''array-group'',
           \<lparr>fallbacks = [example_fallback ''https://github.com/es-shims/Array.prototype.group'']\<rparr>)])
       = [''intersection-observer'', ''array-group'']"
    by (simp add: obj_keys_def example_mappings_def)
  show "\<not> sorted [''intersection-observer'', ''array-group'']" by simp
qed

section \<open>Properties of main\<close>

text \<open>The override object that the merge loop receives has distinct keys.\<close>

lemma is_object_loadOverrides:
  "is_object parsed \<Longrightarrow> is_object (loadOverrides (Document parsed))"
  by (simp add: loadOverrides_def is_object_def distinct_map_filter)

text \<open>
  C6. The claim asks that a malformed override file aborts the run. The \<open>catch\<close> clause
  around the loading code makes no difference between a missing and a malformed file: in
  the run below the override file cannot be parsed, and the run succeeds with the output
  of the run without an override file.
\<close>

theorem unparseable_overrides_counterexample:
  "main (example_world Unparseable) = Inr example_mappings
   \<and> main (example_world NoFile) = Inr example_mappings"
  by (intro conjI; code_simp)

text \<open>
  C6, amended. A missing override file is the empty-override case, and a malformed
  override file is treated in the same way: the run does not abort, it continues with an
  empty override set and returns what the run without an override file returns; when the
  remote mapping arrives and the clone does not fail, that is the auto-discovered mapping.
\<close>

theorem unparseable_overrides_treated_as_missing:
  "loadOverrides Unparseable = [] \<and> loadOverrides NoFile = []
   \<and> main (w\<lparr>override_file := Unparseable\<rparr>) = main (w\<lparr>override_file := NoFile\<rparr>)
   \<and> (fetchMDNDocsMapping (mdn_response w) = Inr mapping \<and> mdn_content w \<noteq> CloneFails
        \<longrightarrow> main (w\<lparr>override_file := Unparseable\<rparr>)
            = Inr (generateMappings mapping (getMDNSlug w) (pages w) (features w)))"
  by (auto simp: loadOverrides_def main_def ensureMDNContent_def
           split: sum.splits mdn_content.splits)

theorem unparseable_overrides_treated_as_missing_witness:
  "fetchMDNDocsMapping (mdn_response (example_world NoFile))
     = Inr [(''intersection-observer'',
             [\<lparr>slug = ''Web/API/Intersection_Observer_API''\<rparr>,
              \<lparr>slug = ''Web/API/IntersectionObserver''\<rparr>])]
   \<and> mdn_content (example_world NoFile) \<noteq> CloneFails
   \<and> main ((example_world NoFile)\<lparr>override_file := Unparseable\<rparr>)
       = Inr (generateMappings
               [(''intersection-observer'',
                 [\<lparr>slug = ''Web/API/Intersection_Observer_API''\<rparr>,
                  \<lparr>slug = ''Web/API/IntersectionObserver''\<rparr>])]
               (getMDNSlug (example_world NoFile)) (pages (example_world NoFile))
               (features (example_world NoFile)))"
proof -
  have 1: "fetchMDNDocsMapping (mdn_response (example_world NoFile))
     = Inr [(''intersection-observer'',
             [\<lparr>slug = ''Web/API/Intersection_Observer_API''\<rparr>,
              \<lparr>slug = ''Web/API/IntersectionObserver''\<rparr>])]"
    by (simp add: example_world_def fetchMDNDocsMapping_def)
  have 2: "mdn_content (example_world NoFile) \<noteq> CloneFails"
    by (simp add: example_world_def)
  from 1 2 unparseable_overrides_treated_as_missing [of "example_world NoFile"]
  show ?thesis by blast
qed

section \<open>Properties of extractNpmPackage\<close>

text \<open>
  What the search does: it fails exactly when no occurrence of the literal is followed by
  a character of the class, and a result comes from the leftmost position that matches.
\<close>

lemma regex_search_None_iff:
  "regex_search match_at u = None \<longleftrightarrow> (\<forall>pre s. u = pre @ s \<longrightarrow> match_at s = None)"
proof (induction u)
  case Nil
  show ?case by simp
next
  case (Cons c u)
  show ?case
  proof
    assume none: "regex_search match_at (c # u) = None"
    then have here: "match_at (c # u) = None" and later: "regex_search match_at u = None"
      by (auto split: option.splits)
    show "\<forall>pre s. c # u = pre @ s \<longrightarrow> match_at s = None"
    proof (intro allI impI)
      fix pre s
      assume eq: "c # u = pre @ s"
      show "match_at s = None"
      proof (cases pre)
        case Nil
        with eq here show ?thesis by simp
      next
        case (Cons d pre')
        with eq have "u = pre' @ s" by simp
        with later Cons.IH show ?thesis by blast
      qed
    qed
  next
    assume all: "\<forall>pre s. c # u = pre @ s \<longrightarrow> match_at s = None"
    then have here: "match_at (c # u) = None" by (metis append_Nil)
    have "\<forall>pre s. u = pre @ s \<longrightarrow> match_at s = None"
    proof (intro allI impI)
      fix pre s
      assume "u = pre @ s"
      then have "c # u = (c # pre) @ s" by simp
      with all show "match_at s = None" by blast
    qed
    with Cons.IH have "regex_search match_at u = None" by simp
    with here show "regex_search match_at (c # u) = None" by simp
  qed
qed

lemma regex_search_first:
  assumes "regex_search match_at u = Some r"
  shows "\<exists>pre s. u = pre @ s \<and> match_at s = Some r
           \<and> (\<forall>pre' s'. u = pre' @ s' \<and> length pre' < length pre \<longrightarrow> match_at s' = None)"
  using assms
proof (induction u)
  case Nil
  then show ?case by simp
next
  case (Cons c u)
  show ?case
  proof (cases "match_at (c # u)")
    case (Some r')
    with Cons.prems have "match_at (c # u) = Some r" by simp
    then have "c # u = [] @ (c # u) \<and> match_at (c # u) = Some r
       \<and> (\<forall>pre' s'. c # u = pre' @ s' \<and> length pre' < length ([] :: string)
             \<longrightarrow> match_at s' = None)"
      by simp
    then show ?thesis by blast
  next
    case None
    with Cons.prems have "regex_search match_at u = Some r" by simp
    from Cons.IH [OF this] obtain pre s where ps: "u = pre @ s" "match_at s = Some r"
      and first: "\<forall>pre' s'. u = pre' @ s' \<and> length pre' < length pre \<longrightarrow> match_at s' = None"
      by blast
    have "\<forall>pre' s'. c # u = pre' @ s' \<and> length pre' < length (c # pre) \<longrightarrow> match_at s' = None"
    proof (intro allI impI)
      fix pre' s'
      assume a: "c # u = pre' @ s' \<and> length pre' < length (c # pre)"
      show "match_at s' = None"
      proof (cases pre')
        case Nil
        with a None show ?thesis by simp
      next
        case (Cons d p)
        with a have "u = p @ s'" "length p < length pre" by simp_all
        with first show ?thesis by blast
      qed
    qed
    moreover from ps have "c # u = (c # pre) @ s" by simp
    ultimately show ?thesis using ps(2) by blast
  qed
qed

lemma npm_match_at_Some:
  assumes "npm_match_at s = Some n"
  shows "\<exists>rest. s = ''npmjs.com/package/'' @ rest \<and> takeWhile name_char rest \<noteq> []
        \<and> (n = takeWhile name_char rest
           \<or> (\<exists>t. dropWhile name_char rest = CHR ''/'' # t \<and> takeWhile name_char t \<noteq> []
                 \<and> n = takeWhile name_char rest @ ''/'' @ takeWhile name_char t))"
proof -
  define lit where "lit = ''npmjs.com/package/''"
  from assms have pre: "prefix lit s"
    unfolding npm_match_at_def lit_def [symmetric] by (simp split: if_splits)
  then obtain rest where s: "s = lit @ rest" by (auto simp: prefix_def)
  then have d: "drop (length lit) s = rest" by simp
  from assms pre have
    "(let seg1 = takeWhile name_char rest; after = dropWhile name_char rest
      in if seg1 = [] then None
         else (case after of [] \<Rightarrow> Some seg1
               | c # t \<Rightarrow> if c = CHR ''/'' \<and> takeWhile name_char t \<noteq> []
                          then Some (seg1 @ ''/'' @ takeWhile name_char t) else Some seg1)) = Some n"
    unfolding npm_match_at_def lit_def [symmetric] d by (simp add: Let_def)
  then have "takeWhile name_char rest \<noteq> []
     \<and> (n = takeWhile name_char rest
        \<or> (\<exists>t. dropWhile name_char rest = CHR ''/'' # t \<and> takeWhile name_char t \<noteq> []
              \<and> n = takeWhile name_char rest @ ''/'' @ takeWhile name_char t))"
    by (auto simp: Let_def split: if_splits list.splits)
  with s show ?thesis unfolding lit_def by blast
qed

lemma npm_match_at_None_iff:
  "npm_match_at s = None \<longleftrightarrow>
     (\<forall>rest. s = ''npmjs.com/package/'' @ rest \<longrightarrow> takeWhile name_char rest = [])"
proof -
  define lit where "lit = ''npmjs.com/package/''"
  show ?thesis
  proof (cases "prefix lit s")
    case False
    then have "npm_match_at s = None" unfolding npm_match_at_def lit_def by simp
    moreover from False have "\<forall>rest. s \<noteq> lit @ rest" by (auto simp: prefix_def)
    ultimately show ?thesis unfolding lit_def by simp
  next
    case True
    then obtain rest where s: "s = lit @ rest" by (auto simp: prefix_def)
    then have d: "drop (length lit) s = rest" by simp
    have "npm_match_at s = None \<longleftrightarrow> takeWhile name_char rest = []"
      using True unfolding npm_match_at_def lit_def [symmetric] d
      by (simp add: Let_def split: list.splits)
    moreover have "(\<forall>r. s = lit @ r \<longrightarrow> takeWhile name_char r = [])
                   \<longleftrightarrow> takeWhile name_char rest = []"
      using s by simp
    ultimately show ?thesis unfolding lit_def by simp
  qed
qed

lemma extractNpmPackage_None_iff:
  "extractNpmPackage u = None \<longleftrightarrow>
     (\<forall>pre rest. u = pre @ ''npmjs.com/package/'' @ rest \<longrightarrow> takeWhile name_char rest = [])"
  unfolding extractNpmPackage_def regex_search_None_iff npm_match_at_None_iff by blast

lemma extractNpmPackage_first_match:
  assumes "extractNpmPackage u = Some n"
  shows "\<exists>pre s. u = pre @ s \<and> npm_match_at s = Some n
           \<and> (\<forall>pre' s'. u = pre' @ s' \<and> length pre' < length pre \<longrightarrow> npm_match_at s' = None)"
  using assms unfolding extractNpmPackage_def by (rule regex_search_first)

text \<open>
  C9. The claim allows a slash inside the extracted name only in the scoped form
  \<open>@scope/name\<close>. The optional second segment of the regular expression does not
  depend on the \<open>@\<close>: for the url of a version page of an unscoped package the
  extraction returns two path segments, \<open>core-js/v\<close>, where the package is \<open>core-js\<close>.
\<close>

theorem extractNpmPackage_unscoped_second_segment:
  "extractNpmPackage ''https://www.npmjs.com/package/core-js/v/3.0.0'' = Some ''core-js/v''"
  by (simp add: extractNpmPackage_def npm_match_at_def name_char_def)

section \<open>Properties of the stats script\<close>

lemma set_add_loop_distinct: "distinct acc \<Longrightarrow> distinct (foldl set_add acc xs)"
  by (induction xs arbitrary: acc) (simp_all add: set_add_def)

lemma extractNpmPackages_distinct: "distinct (extractNpmPackages polyfillMappings)"
  by (simp add: extractNpmPackages_def set_add_loop_distinct)

lemma refresh_step_other:
  "k \<noteq> p \<Longrightarrow> obj_get (refresh_step w stats p) k = obj_get stats k"
  by (simp add: refresh_step_def obj_get_set split: option.splits lookup.splits)

lemma refresh_loop_other:
  "k \<notin> set ps \<Longrightarrow> obj_get (foldl (refresh_step w) stats ps) k = obj_get stats k"
  by (induction ps arbitrary: stats) (simp_all add: refresh_step_other)

lemma refresh_step_same:
  "obj_get (refresh_step w stats pkg) pkg = refreshed w pkg (obj_get stats pkg)"
  by (auto simp: refresh_step_def refreshed_def obj_get_set js_get_def
           split: option.splits lookup.splits if_splits)

lemma refreshed_idem: "refreshed w pkg (refreshed w pkg x) = refreshed w pkg x"
  by (simp add: refreshed_def split: option.splits)

lemma refresh_loop_same:
  "obj_get (foldl (refresh_step w) stats ps) pkg =
     (if pkg \<in> set ps then refreshed w pkg (obj_get stats pkg) else obj_get stats pkg)"
proof (induction ps arbitrary: stats)
  case Nil
  show ?case by simp
next
  case (Cons p ps)
  show ?case
  proof (cases "p = pkg")
    case True
    with Cons [of "refresh_step w stats pkg"] show ?thesis
      by (simp add: refresh_step_same refreshed_idem)
  next
    case False
    with Cons [of "refresh_step w stats p"] show ?thesis
      by (simp add: refresh_step_other)
  qed
qed

lemma refresh_step_kept_or_fresh:
  assumes "kept_or_fresh w pkg e stats"
  shows "kept_or_fresh w pkg e (refresh_step w stats p)"
proof (cases "p = pkg")
  case False
  with assms show ?thesis by (simp add: kept_or_fresh_def refresh_step_other)
next
  case True
  then have "obj_get (refresh_step w stats p) pkg = refreshed w pkg (obj_get stats pkg)"
    by (simp add: refresh_step_same)
  with assms show ?thesis
    by (auto simp: kept_or_fresh_def refreshed_def split: option.splits)
qed

lemma refresh_loop_kept_or_fresh:
  "kept_or_fresh w pkg e stats \<Longrightarrow> kept_or_fresh w pkg e (foldl (refresh_step w) stats ps)"
  by (induction ps arbitrary: stats) (simp_all add: refresh_step_kept_or_fresh)

text \<open>
  C8. A package is refreshed exactly when the force flag is on the command line (in
  either spelling), or the package has no record in the existing stats, or its record has
  no \<open>lastModified\<close> value, or that value is a date more than one week before the
  clock reading. \<open>fetchAllStats\<close> selects exactly the listed packages that pass this
  test. A selected package is fetched: with a download count its record is replaced by a
  fresh one, without one the record it had stays, and a record with \<open>downloads: null\<close>
  is written when it had none. The record of a package that is not selected is left as
  it was.
\<close>

theorem refresh_iff_forced_or_stale:
  "(needsRefresh args parse now pkg existingStats \<longleftrightarrow>
      (''--force'' \<in> set args \<or> ''-f'' \<in> set args)
    \<or> obj_get existingStats pkg = None
    \<or> (\<exists>st. obj_get existingStats pkg = Some st
          \<and> (lastModified st = None \<or> lastModified st = Some []))
    \<or> (\<exists>st ts t. obj_get existingStats pkg = Some st \<and> lastModified st = Some ts
          \<and> parse ts = Some t \<and> now - t > 7 * 24 * 60 * 60 * 1000))
   \<and> (pkg \<in> set (packagesToRefresh w packages existingStats) \<longleftrightarrow>
        pkg \<in> set packages
        \<and> needsRefresh (argv w) (parseDate w) (clock w pkg) pkg existingStats)
   \<and> (pkg \<in> set (packagesToRefresh w packages existingStats)
        \<longrightarrow> obj_get (fetchAllStats w packages existingStats) pkg =
            (case fetchPackageStats (respond w pkg) 0 of
               Some d \<Rightarrow> Some \<lparr>downloads = Some d, lastModified = Some (stamp w pkg)\<rparr>
             | None \<Rightarrow>
                 (case js_get existingStats pkg of
                    Own e \<Rightarrow> Some e
                  | Inherited \<Rightarrow> None
                  | Undefined \<Rightarrow>
                      Some \<lparr>downloads = None, lastModified = Some (stamp w pkg)\<rparr>)))
   \<and> (pkg \<notin> set (packagesToRefresh w packages existingStats)
        \<longrightarrow> obj_get (fetchAllStats w packages existingStats) pkg = obj_get existingStats pkg)"
proof (intro conjI impI)
  show "needsRefresh args parse now pkg existingStats \<longleftrightarrow>
      (''--force'' \<in> set args \<or> ''-f'' \<in> set args)
    \<or> obj_get existingStats pkg = None
    \<or> (\<exists>st. obj_get existingStats pkg = Some st
          \<and> (lastModified st = None \<or> lastModified st = Some []))
    \<or> (\<exists>st ts t. obj_get existingStats pkg = Some st \<and> lastModified st = Some ts
          \<and> parse ts = Some t \<and> now - t > 7 * 24 * 60 * 60 * 1000)"
    by (auto simp: needsRefresh_def FORCE_REFRESH_def truthy_def ONE_WEEK_MS_def js_get_def
             split: option.splits if_splits lookup.splits)
next
  show "pkg \<in> set (packagesToRefresh w packages existingStats) \<longleftrightarrow>
        pkg \<in> set packages
        \<and> needsRefresh (argv w) (parseDate w) (clock w pkg) pkg existingStats"
    by (simp add: packagesToRefresh_def)
next
  assume "pkg \<in> set (packagesToRefresh w packages existingStats)"
  then have "obj_get (fetchAllStats w packages existingStats) pkg
               = refreshed w pkg (obj_get existingStats pkg)"
    by (simp add: fetchAllStats_def refresh_loop_same)
  then show "obj_get (fetchAllStats w packages existingStats) pkg =
            (case fetchPackageStats (respond w pkg) 0 of
               Some d \<Rightarrow> Some \<lparr>downloads = Some d, lastModified = Some (stamp w pkg)\<rparr>
             | None \<Rightarrow>
                 (case js_get existingStats pkg of
                    Own e \<Rightarrow> Some e
                  | Inherited \<Rightarrow> None
                  | Undefined \<Rightarrow>
                      Some \<lparr>downloads = None, lastModified = Some (stamp w pkg)\<rparr>))"
    by (simp add: refreshed_def js_get_def split: option.splits)
next
  assume "pkg \<notin> set (packagesToRefresh w packages existingStats)"
  then show "obj_get (fetchAllStats w packages existingStats) pkg = obj_get existingStats pkg"
    unfolding fetchAllStats_def by (rule refresh_loop_other)
qed

theorem refresh_iff_forced_or_stale_witness:
  "''a'' \<in> set (packagesToRefresh example_npm_world [''a'', ''b'']
     [(''a'', \<lparr>downloads = Some 5, lastModified = Some ''t0''\<rparr>),
      (''b'', \<lparr>downloads = Some 7, lastModified = Some ''t1''\<rparr>)])
   \<and> obj_get (fetchAllStats example_npm_world [''a'', ''b'']
     [(''a'', \<lparr>downloads = Some 5, lastModified = Some ''t0''\<rparr>),
      (''b'', \<lparr>downloads = Some 7, lastModified = Some ''t1''\<rparr>)]) ''a''
     = Some \<lparr>downloads = Some 1234, lastModified = Some ''t1''\<rparr>
   \<and> ''b'' \<notin> set (packagesToRefresh example_npm_world [''a'', ''b'']
     [(''a'', \<lparr>downloads = Some 5, lastModified = Some ''t0''\<rparr>),
      (''b'', \<lparr>downloads = Some 7, lastModified = Some ''t1''\<rparr>)])
   \<and> obj_get (fetchAllStats example_npm_world [''a'', ''b'']
     [(''a'', \<lparr>downloads = Some 5, lastModified = Some ''t0''\<rparr>),
      (''b'', \<lparr>downloads = Some 7, lastModified = Some ''t1''\<rparr>)]) ''b''
     = Some \<lparr>downloads = Some 7, lastModified = Some ''t1''\<rparr>"
proof -
  let ?stats = "[(''a'', \<lparr>downloads = Some 5, lastModified = Some ''t0''\<rparr>),
                 (''b'', \<lparr>downloads = Some 7, lastModified = Some ''t1''\<rparr>)]"
  have 1: "''a'' \<in> set (packagesToRefresh example_npm_world [''a'', ''b''] ?stats)"
    by code_simp
  have 2: "''b'' \<notin> set (packagesToRefresh example_npm_world [''a'', ''b''] ?stats)"
    by code_simp
  have 3: "fetchPackageStats (respond example_npm_world ''a'') 0 = Some 1234"
    by code_simp
  have 4: "stamp example_npm_world ''a'' = ''t1''"
    by (simp add: example_npm_world_def example_stamp_def)
  have 5: "obj_get ?stats ''b'' = Some \<lparr>downloads = Some 7, lastModified = Some ''t1''\<rparr>"
    by (simp add: obj_get_def)
  from 1 2 3 4 5
    refresh_iff_forced_or_stale
      [of "argv example_npm_world" "parseDate example_npm_world" "clock example_npm_world ''a''"
          "''a''" ?stats example_npm_world "[''a'', ''b'']"]
    refresh_iff_forced_or_stale
      [of "argv example_npm_world" "parseDate example_npm_world" "clock example_npm_world ''b''"
          "''b''" ?stats example_npm_world "[''a'', ''b'']"]
  show ?thesis by simp
qed

text \<open>
  C10. When the fetch for a package returns \<open>null\<close> and the existing stats have a record
  for the package, the output has that record unchanged, downloads and timestamp alike.
  A package with a record in the existing stats ends with that record or with a fresh
  record of a fetched count, so a record with \<open>downloads: null\<close> is written only for a
  package without a prior record.
\<close>

theorem failed_fetch_keeps_existing_entry:
  assumes "obj_get existingStats pkg = Some e"
  shows "(fetchPackageStats (respond w pkg) 0 = None
            \<longrightarrow> obj_get (fetchAllStats w packages existingStats) pkg = Some e)
       \<and> (obj_get (fetchAllStats w packages existingStats) pkg = Some e
          \<or> (\<exists>d. fetchPackageStats (respond w pkg) 0 = Some d
                \<and> obj_get (fetchAllStats w packages existingStats) pkg
                    = Some \<lparr>downloads = Some d, lastModified = Some (stamp w pkg)\<rparr>))"
proof -
  from assms have "kept_or_fresh w pkg e existingStats" by (simp add: kept_or_fresh_def)
  then have "kept_or_fresh w pkg e (fetchAllStats w packages existingStats)"
    unfolding fetchAllStats_def by (rule refresh_loop_kept_or_fresh)
  then show ?thesis by (auto simp: kept_or_fresh_def)
qed

theorem failed_fetch_keeps_existing_entry_witness:
  "obj_get [(''c'', \<lparr>downloads = Some 5, lastModified = Some ''t0''\<rparr>)] ''c''
     = Some \<lparr>downloads = Some 5, lastModified = Some ''t0''\<rparr>
   \<and> fetchPackageStats (respond example_npm_world ''c'') 0 = None
   \<and> ''c'' \<in> set (packagesToRefresh example_npm_world [''a'', ''c'']
                      [(''c'', \<lparr>downloads = Some 5, lastModified = Some ''t0''\<rparr>)])
   \<and> obj_get (fetchAllStats example_npm_world [''a'', ''c'']
               [(''c'', \<lparr>downloads = Some 5, lastModified = Some ''t0''\<rparr>)]) ''c''
     = Some \<lparr>downloads = Some 5, lastModified = Some ''t0''\<rparr>"
proof -
  have 1: "obj_get [(''c'', \<lparr>downloads = Some 5, lastModified = Some ''t0''\<rparr>)] ''c''
     = Some \<lparr>downloads = Some 5, lastModified = Some ''t0''\<rparr>"
    by (simp add: obj_get_def)
  have 2: "fetchPackageStats (respond example_npm_world ''c'') 0 = None"
    by code_simp
  have 3: "''c'' \<in> set (packagesToRefresh example_npm_world [''a'', ''c'']
                      [(''c'', \<lparr>downloads = Some 5, lastModified = Some ''t0''\<rparr>)])"
    by code_simp
  from 1 2 3 failed_fetch_keeps_existing_entry [OF 1, of example_npm_world "[''a'', ''c'']"]
  show ?thesis by simp
qed

end
